theory Spec2Isabelle
  imports Main "HOL-Library.Finite_Map"
begin

section \<open>The lookup cache of \<open>lookupsource/cache.go\<close>\<close>

text \<open>
  The model is sequential: one call runs at a time, so the lock \<open>mu\<close> of the Go
  struct has no counterpart here. Every read of the clock (\<open>time.Now()\<close>) is an
  explicit argument \<open>now\<close> of the operation that reads it.

  A \<open>time.Time\<close> is the number of nanoseconds since Go's zero instant, so that
  \<open>IsZero\<close> is the test against 0; a \<open>time.Duration\<close> is a number of nanoseconds.
  Both are unbounded integers here: no claim below depends on the 64-bit range.
  A value of Go type \<open>any\<close> is \<open>'v option\<close>, with \<open>None\<close> for \<open>nil\<close>; an
  \<open>error\<close> is \<open>'e option\<close>, with \<open>None\<close> for \<open>nil\<close>.
\<close>

type_synonym Time = int
type_synonym Duration = int

definition IsZero :: "Time \<Rightarrow> bool" where
  "IsZero t = (t = 0)"

record CacheConfig =
  Enabled :: bool
  Size :: int
  TTL :: Duration
  NegativeTTL :: Duration

record 'v cacheEntry =
  val :: "'v option"
  found :: bool
  expiresAt :: Time

definition isExpired :: "'v cacheEntry \<Rightarrow> Time \<Rightarrow> bool" where
  "isExpired e now = (if IsZero (expiresAt e) then False else expiresAt e < now)"

record 'v Cache =
  config :: CacheConfig
  entries :: "(string, 'v cacheEntry) fmap"
  order :: "string list"

text \<open>\<open>len(c.entries)\<close>: the number of keys of the map.\<close>

definition len_entries :: "(string, 'v cacheEntry) fmap \<Rightarrow> nat" where
  "len_entries m = fcard (fmdom m)"

text \<open>
  \<open>NewCache\<close> normalises a local copy of the size, which only sizes the two
  allocations; the configuration is stored as it was given.
\<close>

definition NewCache :: "CacheConfig \<Rightarrow> 'v Cache" where
  "NewCache cfg = \<lparr> config = cfg, entries = fmempty, order = [] \<rparr>"

text \<open>
  The two helpers scan \<open>c.order\<close> for the first index holding the key.
  \<open>indexOf\<close> is that scan; \<open>None\<close> when the loop ends without a match.
\<close>

fun indexOf :: "string \<Rightarrow> string list \<Rightarrow> nat option" where
  "indexOf key [] = None"
| "indexOf key (k # ks) =
     (if k = key then Some 0 else map_option Suc (indexOf key ks))"

definition removeEntryLocked :: "'v Cache \<Rightarrow> string \<Rightarrow> 'v Cache" where
  "removeEntryLocked c key =
     (let c1 = c\<lparr> entries := fmdrop key (entries c) \<rparr>
      in case indexOf key (order c1) of
           None \<Rightarrow> c1
         | Some i \<Rightarrow> c1\<lparr> order := take i (order c1) @ drop (i + 1) (order c1) \<rparr>)"

definition moveToEndLocked :: "'v Cache \<Rightarrow> string \<Rightarrow> 'v Cache" where
  "moveToEndLocked c key =
     (case indexOf key (order c) of
        None \<Rightarrow> c
      | Some i \<Rightarrow> c\<lparr> order := (take i (order c) @ drop (i + 1) (order c)) @ [key] \<rparr>)"

text \<open>\<open>get\<close> returns \<open>(value, lookupFound, cacheHit)\<close> and the cache it leaves.\<close>

definition get :: "'v Cache \<Rightarrow> string \<Rightarrow> Time \<Rightarrow> ('v option \<times> bool \<times> bool) \<times> 'v Cache" where
  "get c key now =
     (case fmlookup (entries c) key of
        None \<Rightarrow> ((None, False, False), c)
      | Some entry \<Rightarrow>
          if isExpired entry now then ((None, False, False), removeEntryLocked c key)
          else ((val entry, found entry, True), c))"

text \<open>
  The eviction loop of \<open>set\<close>: while \<open>len(c.entries) >= c.config.Size\<close> and the
  order is not empty, drop the head of the order and its entry.
\<close>

fun evict :: "'v Cache \<Rightarrow> string list \<Rightarrow> 'v Cache" where
  "evict c [] = c\<lparr> order := [] \<rparr>"
| "evict c (oldest # rest) =
     (if int (len_entries (entries c)) \<ge> Size (config c)
      then evict (c\<lparr> entries := fmdrop oldest (entries c) \<rparr>) rest
      else c\<lparr> order := oldest # rest \<rparr>)"

text \<open>
  The entry \<open>set\<close> stores: the TTL is \<open>config.TTL\<close> for a found result and
  \<open>config.NegativeTTL\<close> otherwise; \<open>expiresAt\<close> stays the zero time unless the
  TTL is positive.
\<close>

definition ttlFor :: "CacheConfig \<Rightarrow> bool \<Rightarrow> Duration" where
  "ttlFor cfg fnd = (if \<not> fnd then NegativeTTL cfg else TTL cfg)"

definition newEntry :: "CacheConfig \<Rightarrow> 'v option \<Rightarrow> bool \<Rightarrow> Time \<Rightarrow> 'v cacheEntry" where
  "newEntry cfg v fnd now =
     \<lparr> val = v, found = fnd,
       expiresAt = (if ttlFor cfg fnd > 0 then now + ttlFor cfg fnd else 0) \<rparr>"

definition set_cache :: "'v Cache \<Rightarrow> string \<Rightarrow> 'v option \<Rightarrow> bool \<Rightarrow> Time \<Rightarrow> 'v Cache" where
  "set_cache c key v fnd now =
     (if \<not> fnd \<and> NegativeTTL (config c) = 0 then c
      else if fmlookup (entries c) key \<noteq> None
      then moveToEndLocked
             (c\<lparr> entries := fmupd key (newEntry (config c) v fnd now) (entries c) \<rparr>) key
      else
        let c1 = evict c (order c)
        in c1\<lparr> entries := fmupd key (newEntry (config c) v fnd now) (entries c1),
               order := order c1 @ [key] \<rparr>)"

definition Clear :: "'v Cache \<Rightarrow> 'v Cache" where
  "Clear c = c\<lparr> entries := fmempty, order := [] \<rparr>"

definition Cache_Size :: "'v Cache \<Rightarrow> int" where
  "Cache_Size c = int (len_entries (entries c))"

subsection \<open>Sequences of calls and the representation invariant\<close>

text \<open>A sequence of \<open>set\<close> calls, each with its key, value, flag and clock reading.\<close>

fun set_all :: "'v Cache \<Rightarrow> (string \<times> 'v option \<times> bool \<times> Time) list \<Rightarrow> 'v Cache" where
  "set_all c [] = c"
| "set_all c ((key, v, fnd, now) # calls) = set_all (set_cache c key v fnd now) calls"

text \<open>
  The keys of \<open>entries\<close> are exactly the elements of \<open>order\<close>, and no key occurs
  twice in \<open>order\<close>.
\<close>

definition cache_inv :: "'v Cache \<Rightarrow> bool" where
  "cache_inv c = (fmdom (entries c) = fset_of_list (order c) \<and> distinct (order c))"

subsection \<open>The decorator\<close>

text \<open>
  A \<open>LookupFunc\<close> takes the context and the key and returns
  \<open>(value, found, error)\<close>. It may have effects of its own (the tests count its
  calls), so it threads a state \<open>'w\<close> of the world outside the cache.
\<close>

type_synonym ('x, 'w, 'v, 'e) LookupFunc =
  "'x \<Rightarrow> string \<Rightarrow> 'w \<Rightarrow> ('v option \<times> bool \<times> 'e option) \<times> 'w"

text \<open>
  The closure that \<open>WrapWithCache\<close> returns for a usable cache. \<open>now1\<close> is the
  clock read by \<open>get\<close>, \<open>now2\<close> the clock read by \<open>set\<close>. The result comes with
  the cache and the world the call leaves.
\<close>

definition cachedLookup ::
  "'v Cache \<Rightarrow> ('x, 'w, 'v, 'e) LookupFunc \<Rightarrow> 'x \<Rightarrow> string \<Rightarrow> Time \<Rightarrow> Time \<Rightarrow> 'w
     \<Rightarrow> ('v option \<times> bool \<times> 'e option) \<times> 'v Cache \<times> 'w" where
  "cachedLookup c fn ctx key now1 now2 w =
     (case get c key now1 of
        ((v, lookupFound, cacheHit), c1) \<Rightarrow>
          if cacheHit then ((v, lookupFound, None), c1, w)
          else
            (case fn ctx key w of
               ((v', fnd, err), w') \<Rightarrow>
                 if err \<noteq> None then ((None, False, err), c1, w')
                 else ((v', fnd, None), set_cache c1 key v' fnd now2, w')))"

text \<open>
  \<open>WrapWithCache\<close>: a \<open>nil\<close> cache (\<open>None\<close>) or a disabled one gives the lookup
  function back as it is. The test reads the pointer and \<open>config.Enabled\<close> only,
  which no operation changes, so it is the same at wrapping time and at every call.
\<close>

definition WrapWithCache ::
  "'v Cache option \<Rightarrow> ('x, 'w, 'v, 'e) LookupFunc \<Rightarrow> 'x \<Rightarrow> string \<Rightarrow> Time \<Rightarrow> Time \<Rightarrow> 'w
     \<Rightarrow> ('v option \<times> bool \<times> 'e option) \<times> 'v Cache option \<times> 'w" where
  "WrapWithCache cache fn ctx key now1 now2 w =
     (case cache of
        None \<Rightarrow> (case fn ctx key w of (r, w') \<Rightarrow> (r, None, w'))
      | Some c \<Rightarrow>
          if \<not> Enabled (config c) then (case fn ctx key w of (r, w') \<Rightarrow> (r, Some c, w'))
          else (case cachedLookup c fn ctx key now1 now2 w of
                  (r, c', w') \<Rightarrow> (r, Some c', w')))"

text \<open>
  A lookup function with a call counter in front of its state, as the tests'
  \<open>lookupCount++\<close>.
\<close>

definition counted :: "('x, 'w, 'v, 'e) LookupFunc \<Rightarrow> ('x, nat \<times> 'w, 'v, 'e) LookupFunc" where
  "counted fn ctx key nw = (case fn ctx key (snd nw) of (r, w') \<Rightarrow> (r, (Suc (fst nw), w')))"

text \<open>
  Two calls of the decorated function with the same key, one after the other:
  the first result, then the second result with the final cache and world.
\<close>

definition callTwice ::
  "'v Cache option \<Rightarrow> ('x, 'w, 'v, 'e) LookupFunc \<Rightarrow> 'x \<Rightarrow> string
     \<Rightarrow> Time \<Rightarrow> Time \<Rightarrow> Time \<Rightarrow> Time \<Rightarrow> 'w
     \<Rightarrow> ('v option \<times> bool \<times> 'e option) \<times> ('v option \<times> bool \<times> 'e option) \<times> 'v Cache option \<times> 'w" where
  "callTwice cache fn ctx key t1 t2 t3 t4 w =
     (case WrapWithCache cache fn ctx key t1 t2 w of
        (r1, cache1, w1) \<Rightarrow> (r1, WrapWithCache cache1 fn ctx key t3 t4 w1))"

subsection \<open>Lookup functions, configurations and caches used in the examples\<close>

text \<open>
  \<open>failingLookup\<close> returns a value and a true flag together with its error;
  \<open>valueLookup\<close> resolves every key; \<open>notFoundLookup\<close> resolves none.
  \<open>oneEntry\<close> holds the key \<open>a\<close>, stored at time 1 with a TTL of 5, so that it
  expires after time 6; \<open>twoEntries\<close> holds \<open>a\<close> and \<open>b\<close>, which never expire.
  Both have negative caching off. \<open>disabledCache\<close> is an empty cache whose
  configuration has \<open>Enabled = false\<close>.
\<close>

definition failingLookup :: "(unit, unit, nat, string) LookupFunc" where
  "failingLookup ctx key w = ((Some 7, True, Some ''lookup failed''), w)"

definition valueLookup :: "(unit, unit, nat, string) LookupFunc" where
  "valueLookup ctx key w = ((Some (length key), True, None), w)"

definition notFoundLookup :: "(unit, unit, nat, string) LookupFunc" where
  "notFoundLookup ctx key w = ((None, False, None), w)"

definition cfgOf :: "int \<Rightarrow> Duration \<Rightarrow> Duration \<Rightarrow> CacheConfig" where
  "cfgOf sz ttl nttl = \<lparr> Enabled = True, Size = sz, TTL = ttl, NegativeTTL = nttl \<rparr>"

definition threeCalls :: "(string \<times> nat option \<times> bool \<times> Time) list" where
  "threeCalls = [(''a'', Some 1, True, 1), (''b'', Some 2, True, 2), (''c'', Some 3, True, 3)]"

definition oneEntry :: "nat Cache" where
  "oneEntry = set_cache (NewCache (cfgOf 2 5 0)) ''a'' (Some 1) True 1"

definition twoCalls :: "(string \<times> nat option \<times> bool \<times> Time) list" where
  "twoCalls = [(''a'', Some 1, True, 1), (''b'', Some 2, True, 2)]"

definition twoEntries :: "nat Cache" where
  "twoEntries = set_all (NewCache (cfgOf 3 0 0)) twoCalls"

definition disabledCache :: "nat Cache" where
  "disabledCache = NewCache \<lparr> Enabled = False, Size = 100, TTL = 0, NegativeTTL = 0 \<rparr>"

section \<open>Properties\<close>

subsection \<open>The order scans\<close>

lemma indexOf_None: "indexOf key xs = None \<longleftrightarrow> key \<notin> set xs"
  by (induction xs) auto

lemma indexOf_Some: "indexOf key xs = Some i \<Longrightarrow> take i xs @ drop (Suc i) xs = remove1 key xs"
  by (induction xs arbitrary: i) (auto split: if_splits)

lemma removeEntryLocked_eq:
  "removeEntryLocked c key = c\<lparr> entries := fmdrop key (entries c), order := remove1 key (order c) \<rparr>"
proof (cases "indexOf key (order c)")
  case None
  then have "remove1 key (order c) = order c"
    by (simp add: indexOf_None remove1_idem)
  with None show ?thesis by (simp add: removeEntryLocked_def)
next
  case (Some i)
  then show ?thesis by (simp add: removeEntryLocked_def indexOf_Some)
qed

lemma moveToEndLocked_eq:
  "moveToEndLocked c key =
     (if key \<in> set (order c) then c\<lparr> order := remove1 key (order c) @ [key] \<rparr> else c)"
proof (cases "indexOf key (order c)")
  case None
  then have "key \<notin> set (order c)" by (simp add: indexOf_None)
  with None show ?thesis by (simp add: moveToEndLocked_def)
next
  case (Some i)
  then have "key \<in> set (order c)" using indexOf_None [of key "order c"] by auto
  with Some show ?thesis by (simp add: moveToEndLocked_def indexOf_Some)
qed

subsection \<open>The invariant and the size\<close>

lemma cache_inv_alt:
  "cache_inv c \<longleftrightarrow> fmdom' (entries c) = set (order c) \<and> distinct (order c)"
  by (simp add: cache_inv_def fmdom'_alt_def fset_of_list.rep_eq flip: fset_inject)

lemma len_entries_card: "len_entries m = card (fmdom' m)"
  by (simp add: len_entries_def fmdom'_alt_def fcard.rep_eq)

lemma evict_config: "config (evict c xs) = config c"
  by (induction xs arbitrary: c) auto

lemma evict_inv:
  "fmdom' (entries c) = set xs \<Longrightarrow> distinct xs \<Longrightarrow> cache_inv (evict c xs)"
proof (induction xs arbitrary: c)
  case Nil
  then show ?case by (simp add: cache_inv_alt)
next
  case (Cons x xs)
  then show ?case by (auto simp: cache_inv_alt)
qed

lemma evict_room:
  "fmdom' (entries c) = set xs \<Longrightarrow> distinct xs \<Longrightarrow> 0 < Size (config c) \<Longrightarrow>
   int (len_entries (entries (evict c xs))) < Size (config c)"
proof (induction xs arbitrary: c)
  case Nil
  then show ?case by (simp add: len_entries_card)
next
  case (Cons x xs)
  let ?c' = "c\<lparr>entries := fmdrop x (entries c)\<rparr>"
  have "fmdom' (entries ?c') = set xs" "distinct xs" "0 < Size (config ?c')"
    using Cons.prems by auto
  then have "int (len_entries (entries (evict ?c' xs))) < Size (config ?c')"
    by (rule Cons.IH)
  then show ?case by simp
qed

lemma evict_subset: "fmdom' (entries (evict c xs)) \<subseteq> fmdom' (entries c)"
proof (induction xs arbitrary: c)
  case Nil
  then show ?case by simp
next
  case (Cons x xs)
  have "fmdom' (entries (evict (c\<lparr>entries := fmdrop x (entries c)\<rparr>) xs)) \<subseteq> fmdom' (entries c)"
    using Cons.IH [of "c\<lparr>entries := fmdrop x (entries c)\<rparr>"] by auto
  then show ?case by simp
qed

lemma set_cache_config: "config (set_cache c key v fnd now) = config c"
  by (simp add: set_cache_def moveToEndLocked_eq evict_config Let_def)

lemma set_cache_inv: "cache_inv c \<Longrightarrow> cache_inv (set_cache c key v fnd now)"
proof -
  assume inv: "cache_inv c"
  show ?thesis
  proof (cases "\<not> fnd \<and> NegativeTTL (config c) = 0")
    case True
    with inv show ?thesis by (simp add: set_cache_def)
  next
    case guard: False
    show ?thesis
    proof (cases "fmlookup (entries c) key \<noteq> None")
      case True
      then have "key \<in> fmdom' (entries c)"
        by (auto simp: fmlookup_dom'_iff)
      then have "key \<in> set (order c)"
        using inv by (simp add: cache_inv_alt)
      with inv guard True show ?thesis
        by (auto simp: set_cache_def moveToEndLocked_eq cache_inv_alt)
    next
      case False
      let ?c1 = "evict c (order c)"
      have "fmdom' (entries c) = set (order c)" "distinct (order c)"
        using inv by (simp_all add: cache_inv_alt)
      then have inv1: "cache_inv ?c1"
        by (rule evict_inv)
      have "key \<notin> fmdom' (entries c)"
        using False by (auto simp: fmlookup_dom'_iff)
      then have "key \<notin> fmdom' (entries ?c1)"
        using evict_subset [of c "order c"] by auto
      with inv1 have "cache_inv (?c1\<lparr> entries := fmupd key (newEntry (config c) v fnd now) (entries ?c1),
               order := order ?c1 @ [key] \<rparr>)"
        by (auto simp: cache_inv_alt)
      with guard False show ?thesis
        by (auto simp: set_cache_def Let_def)
    qed
  qed
qed

lemma removeEntryLocked_inv: "cache_inv c \<Longrightarrow> cache_inv (removeEntryLocked c key)"
  by (auto simp: removeEntryLocked_eq cache_inv_alt)

lemma get_inv: "cache_inv c \<Longrightarrow> cache_inv (snd (get c key now))"
  by (simp add: get_def removeEntryLocked_inv split: option.splits)

lemma Clear_inv: "cache_inv (Clear c)"
  by (simp add: Clear_def cache_inv_def)

lemma NewCache_inv: "cache_inv (NewCache cfg)"
  by (simp add: NewCache_def cache_inv_def)

lemma set_cache_bound:
  assumes inv: "cache_inv c" and pos: "0 < Size (config c)"
    and le: "Cache_Size c \<le> Size (config c)"
  shows "Cache_Size (set_cache c key v fnd now) \<le> Size (config c)"
proof (cases "\<not> fnd \<and> NegativeTTL (config c) = 0")
  case True
  with le show ?thesis by (simp add: set_cache_def)
next
  case guard: False
  show ?thesis
  proof (cases "fmlookup (entries c) key \<noteq> None")
    case True
    then have "key \<in> fmdom' (entries c)" by (auto simp: fmlookup_dom'_iff)
    then have "insert key (fmdom' (entries c)) = fmdom' (entries c)" by auto
    with guard True le show ?thesis
      by (simp add: set_cache_def moveToEndLocked_eq Cache_Size_def len_entries_card)
  next
    case False
    let ?c1 = "evict c (order c)"
    have room: "int (len_entries (entries ?c1)) < Size (config c)"
      using inv pos evict_room [of c "order c"] by (simp add: cache_inv_alt)
    have "card (insert key (fmdom' (entries ?c1))) \<le> Suc (card (fmdom' (entries ?c1)))"
      by (rule card_insert_le_m1) simp_all
    with room guard False show ?thesis
      by (auto simp: set_cache_def Let_def Cache_Size_def len_entries_card)
  qed
qed

lemma set_all_bound:
  "cache_inv c \<Longrightarrow> 0 < Size (config c) \<Longrightarrow> Cache_Size c \<le> Size (config c) \<Longrightarrow>
   Cache_Size (set_all c calls) \<le> Size (config c)"
proof (induction calls arbitrary: c)
  case Nil
  then show ?case by simp
next
  case (Cons call calls)
  obtain key v fnd now where call: "call = (key, v, fnd, now)"
    by (cases call) auto
  let ?c' = "set_cache c key v fnd now"
  have "cache_inv ?c'" using Cons.prems(1) by (rule set_cache_inv)
  moreover have "0 < Size (config ?c')" using Cons.prems(2) by (simp add: set_cache_config)
  moreover have "Cache_Size ?c' \<le> Size (config ?c')"
    using set_cache_bound [OF Cons.prems] by (simp add: set_cache_config)
  ultimately have "Cache_Size (set_all ?c' calls) \<le> Size (config ?c')"
    by (rule Cons.IH)
  then show ?case by (simp add: call set_cache_config)
qed

subsection \<open>Capacity\<close>

text \<open>
  C2. A cache built by \<open>NewCache\<close> with a capacity above 0 never holds more than
  that many entries: after every prefix of a sequence of \<open>set\<close> calls (the first
  \<open>n\<close> calls, whatever their keys, so in particular when the keys are distinct),
  \<open>Size()\<close> is at most the capacity.
\<close>

theorem set_calls_within_capacity:
  assumes "0 < Size cfg" and "n \<le> length calls"
  shows "Cache_Size (set_all (NewCache cfg) (take n calls)) \<le> Size cfg"
proof -
  let ?c = "NewCache cfg :: 'a Cache"
  have "cache_inv ?c" by (rule NewCache_inv)
  moreover have "0 < Size (config ?c)" using assms(1) by (simp add: NewCache_def)
  moreover have "Cache_Size ?c \<le> Size (config ?c)"
    using assms(1) by (simp add: NewCache_def Cache_Size_def len_entries_card)
  ultimately have "Cache_Size (set_all ?c (take n calls)) \<le> Size (config ?c)"
    by (rule set_all_bound)
  then show ?thesis by (simp add: NewCache_def)
qed

theorem set_calls_within_capacity_witness:
  "0 < Size (cfgOf 2 0 0) \<and> 3 \<le> length threeCalls
   \<and> Cache_Size (set_all (NewCache (cfgOf 2 0 0)) (take 3 threeCalls)) \<le> Size (cfgOf 2 0 0)"
proof -
  have h1: "0 < Size (cfgOf 2 0 0)" by (simp add: cfgOf_def)
  have h2: "3 \<le> length threeCalls" by (simp add: threeCalls_def)
  show ?thesis using h1 h2 set_calls_within_capacity [OF h1 h2] by blast
qed

subsection \<open>Lockstep of the map and the order\<close>

text \<open>
  C3. Every cache operation keeps the map and the order in lockstep: if the keys of
  \<open>entries\<close> are exactly the elements of \<open>order\<close> and each occurs there once, the
  same holds after \<open>set\<close>, after \<open>get\<close> (with its removal of an expired entry, that is
  \<open>removeEntryLocked\<close>) and after \<open>Clear\<close>.
\<close>

theorem operations_preserve_lockstep:
  assumes "cache_inv c"
  shows "cache_inv (set_cache c key v fnd now)
       \<and> cache_inv (snd (get c key now))
       \<and> cache_inv (removeEntryLocked c key)
       \<and> cache_inv (Clear c)"
  using assms by (simp add: set_cache_inv get_inv removeEntryLocked_inv Clear_inv)

theorem operations_preserve_lockstep_witness:
  "cache_inv oneEntry
   \<and> cache_inv (set_cache oneEntry ''b'' (Some 2) True 2)
   \<and> cache_inv (snd (get oneEntry ''a'' 10))
   \<and> cache_inv (removeEntryLocked oneEntry ''a'')
   \<and> cache_inv (Clear oneEntry)"
proof -
  have h: "cache_inv oneEntry" by code_simp
  show ?thesis
    using h operations_preserve_lockstep [OF h, of "''b''" "Some 2" True 2]
      operations_preserve_lockstep [OF h, of "''a''" "Some 2" True 10]
    by blast
qed

subsection \<open>What one \<open>set\<close> call does, case by case\<close>

lemma len_entries_order: "cache_inv c \<Longrightarrow> len_entries (entries c) = length (order c)"
  by (simp add: cache_inv_alt len_entries_card distinct_card)

lemma lookup_None_order: "cache_inv c \<Longrightarrow> fmlookup (entries c) key = None \<longleftrightarrow> key \<notin> set (order c)"
  using fmlookup_dom'_iff [of key "entries c"] by (auto simp: cache_inv_alt)

lemma evict_noop:
  "int (len_entries (entries c)) < Size (config c) \<Longrightarrow> evict c xs = c\<lparr> order := xs \<rparr>"
  by (cases xs) auto

lemma set_cache_noop:
  "\<not> fnd \<Longrightarrow> NegativeTTL (config c) = 0 \<Longrightarrow> set_cache c key v fnd now = c"
  by (simp add: set_cache_def)

lemma set_cache_existing:
  assumes "cache_inv c" and "fnd \<or> NegativeTTL (config c) \<noteq> 0" and "key \<in> set (order c)"
  shows "set_cache c key v fnd now =
     c\<lparr> entries := fmupd key (newEntry (config c) v fnd now) (entries c),
        order := remove1 key (order c) @ [key] \<rparr>"
proof -
  have "fmlookup (entries c) key \<noteq> None"
    using assms(1,3) by (simp add: lookup_None_order)
  with assms(2,3) show ?thesis
    by (auto simp: set_cache_def moveToEndLocked_eq)
qed

lemma set_cache_new_room:
  assumes "cache_inv c" and "fnd \<or> NegativeTTL (config c) \<noteq> 0" and "key \<notin> set (order c)"
    and "int (length (order c)) < Size (config c)"
  shows "set_cache c key v fnd now =
     c\<lparr> entries := fmupd key (newEntry (config c) v fnd now) (entries c),
        order := order c @ [key] \<rparr>"
proof -
  have none: "fmlookup (entries c) key = None"
    using assms(1,3) by (simp add: lookup_None_order)
  have "evict c (order c) = c\<lparr> order := order c \<rparr>"
    using assms(1,4) by (intro evict_noop) (simp add: len_entries_order)
  then have "evict c (order c) = c" by simp
  with none assms(2) show ?thesis
    by (auto simp: set_cache_def Let_def)
qed

lemma set_cache_new_full:
  assumes "cache_inv c" and "fnd \<or> NegativeTTL (config c) \<noteq> 0" and "key \<notin> set (order c)"
    and "order c = oldest # rest" and "int (length (order c)) = Size (config c)"
  shows "set_cache c key v fnd now =
     c\<lparr> entries := fmupd key (newEntry (config c) v fnd now) (fmdrop oldest (entries c)),
        order := rest @ [key] \<rparr>"
proof -
  let ?c' = "c\<lparr> entries := fmdrop oldest (entries c) \<rparr>"
  have none: "fmlookup (entries c) key = None"
    using assms(1,3) by (simp add: lookup_None_order)
  have full: "Size (config c) \<le> int (len_entries (entries c))"
    using assms(1,5) by (simp add: len_entries_order)
  have "fmdom' (entries ?c') = set rest"
    using assms(1,4) by (auto simp: cache_inv_alt)
  moreover have "distinct rest"
    using assms(1,4) by (simp add: cache_inv_alt)
  ultimately have "len_entries (entries ?c') = length rest"
    by (simp add: len_entries_card distinct_card)
  then have "int (len_entries (entries ?c')) < Size (config ?c')"
    using assms(4,5) by simp
  then have "evict ?c' rest = ?c'\<lparr> order := rest \<rparr>"
    by (rule evict_noop)
  then have "evict c (order c) = ?c'\<lparr> order := rest \<rparr>"
    using full assms(4) by simp
  with none assms(2) show ?thesis
    by (auto simp: set_cache_def Let_def)
qed

subsection \<open>\<open>get\<close>\<close>

lemma get_absent: "fmlookup (entries c) key = None \<Longrightarrow> get c key now = ((None, False, False), c)"
  by (simp add: get_def)

lemma get_live:
  "fmlookup (entries c) key = Some e \<Longrightarrow> IsZero (expiresAt e) \<or> now \<le> expiresAt e \<Longrightarrow>
   get c key now = ((val e, found e, True), c)"
  by (auto simp: get_def isExpired_def)

lemma get_expired:
  "fmlookup (entries c) key = Some e \<Longrightarrow> \<not> IsZero (expiresAt e) \<Longrightarrow> expiresAt e < now \<Longrightarrow>
   get c key now =
     ((None, False, False), c\<lparr> entries := fmdrop key (entries c), order := remove1 key (order c) \<rparr>)"
  by (simp add: get_def isExpired_def removeEntryLocked_eq)

text \<open>
  C4. \<open>get(key)\<close> is a hit exactly when the key is in the map and its \<open>expiresAt\<close>
  is either the zero time (not set) or not before \<open>now\<close>; the hit carries the
  stored value and flag and leaves the cache as it is. An absent key gives
  \<open>(nil, false, false)\<close> and leaves the cache as it is. A key whose entry has
  expired gives \<open>(nil, false, false)\<close> too, and the call deletes the key from the
  map and takes its first occurrence out of the order, which in a cache whose map
  and order are in lockstep is its only one.
\<close>

theorem get_hit_iff_present_and_live:
  "(snd (snd (fst (get c key now))) \<longleftrightarrow>
      (\<exists>e. fmlookup (entries c) key = Some e \<and> (IsZero (expiresAt e) \<or> now \<le> expiresAt e)))
   \<and> (\<forall>e. fmlookup (entries c) key = Some e \<and> (IsZero (expiresAt e) \<or> now \<le> expiresAt e)
          \<longrightarrow> get c key now = ((val e, found e, True), c))
   \<and> (fmlookup (entries c) key = None \<longrightarrow> get c key now = ((None, False, False), c))
   \<and> (\<forall>e. fmlookup (entries c) key = Some e \<and> \<not> IsZero (expiresAt e) \<and> expiresAt e < now
          \<longrightarrow> fst (get c key now) = (None, False, False)
            \<and> entries (snd (get c key now)) = fmdrop key (entries c)
            \<and> order (snd (get c key now)) = remove1 key (order c)
            \<and> config (snd (get c key now)) = config c
            \<and> fmlookup (entries (snd (get c key now))) key = None
            \<and> (cache_inv c \<longrightarrow> key \<notin> set (order (snd (get c key now)))))"
proof (intro conjI allI impI)
  show "snd (snd (fst (get c key now))) \<longleftrightarrow>
      (\<exists>e. fmlookup (entries c) key = Some e \<and> (IsZero (expiresAt e) \<or> now \<le> expiresAt e))"
  proof (cases "fmlookup (entries c) key")
    case None
    then show ?thesis by (simp add: get_absent)
  next
    case (Some e)
    show ?thesis
    proof (cases "IsZero (expiresAt e) \<or> now \<le> expiresAt e")
      case True
      with Some show ?thesis by (simp add: get_live)
    next
      case False
      with Some show ?thesis by (simp add: get_expired)
    qed
  qed
next
  fix e
  assume "fmlookup (entries c) key = Some e \<and> (IsZero (expiresAt e) \<or> now \<le> expiresAt e)"
  then show "get c key now = ((val e, found e, True), c)"
    by (simp add: get_live)
next
  assume "fmlookup (entries c) key = None"
  then show "get c key now = ((None, False, False), c)"
    by (rule get_absent)
next
  fix e
  assume a: "fmlookup (entries c) key = Some e \<and> \<not> IsZero (expiresAt e) \<and> expiresAt e < now"
  then have g: "get c key now =
     ((None, False, False), c\<lparr> entries := fmdrop key (entries c), order := remove1 key (order c) \<rparr>)"
    by (simp add: get_expired)
  show "fst (get c key now) = (None, False, False)" by (simp add: g)
  show "entries (snd (get c key now)) = fmdrop key (entries c)" by (simp add: g)
  show "order (snd (get c key now)) = remove1 key (order c)" by (simp add: g)
  show "config (snd (get c key now)) = config c" by (simp add: g)
  show "fmlookup (entries (snd (get c key now))) key = None" by (simp add: g)
  assume "cache_inv c"
  then show "key \<notin> set (order (snd (get c key now)))"
    by (simp add: g cache_inv_alt)
qed

theorem get_hit_iff_present_and_live_witness:
  "get oneEntry ''a'' 3 = ((Some 1, True, True), oneEntry)
   \<and> get oneEntry ''b'' 3 = ((None, False, False), oneEntry)
   \<and> fst (get oneEntry ''a'' 10) = (None, False, False)
   \<and> entries (snd (get oneEntry ''a'' 10)) = fmdrop ''a'' (entries oneEntry)
   \<and> ''a'' \<notin> set (order (snd (get oneEntry ''a'' 10)))"
proof -
  let ?e = "\<lparr> val = Some (1::nat), found = True, expiresAt = 6 \<rparr>"
  have l: "fmlookup (entries oneEntry) ''a'' = Some ?e" by code_simp
  have n: "fmlookup (entries oneEntry) ''b'' = None" by code_simp
  have i: "cache_inv oneEntry" by code_simp
  have live: "IsZero (expiresAt ?e) \<or> 3 \<le> expiresAt ?e" by (simp add: IsZero_def)
  have dead: "\<not> IsZero (expiresAt ?e) \<and> expiresAt ?e < 10" by (simp add: IsZero_def)
  have "get oneEntry ''a'' 3 = ((val ?e, found ?e, True), oneEntry)"
    using get_hit_iff_present_and_live [of oneEntry "''a''" 3] l live by blast
  moreover have "get oneEntry ''b'' 3 = ((None, False, False), oneEntry)"
    using get_hit_iff_present_and_live [of oneEntry "''b''" 3] n by blast
  moreover have "fst (get oneEntry ''a'' 10) = (None, False, False)
      \<and> entries (snd (get oneEntry ''a'' 10)) = fmdrop ''a'' (entries oneEntry)
      \<and> ''a'' \<notin> set (order (snd (get oneEntry ''a'' 10)))"
    using get_hit_iff_present_and_live [of oneEntry "''a''" 10] l dead i by blast
  ultimately show ?thesis by simp
qed

subsection \<open>Negative results with negative caching off\<close>

text \<open>
  C6, as the code has it. With \<open>negativeTTL = 0\<close>, \<open>set(key, value, false)\<close> returns
  the cache unchanged (map, order and configuration), so a following \<open>get(key)\<close>
  answers exactly as it would have without the call. It is a miss whenever the key
  had no live entry before the call: absent, or expired at the time of the \<open>get\<close>.
\<close>

theorem negative_set_is_noop:
  assumes "NegativeTTL (config c) = 0"
  shows "set_cache c key v False now = c
       \<and> get (set_cache c key v False now) key now' = get c key now'
       \<and> ((\<forall>e. fmlookup (entries c) key = Some e \<longrightarrow> isExpired e now')
            \<longrightarrow> fst (get (set_cache c key v False now) key now') = (None, False, False))"
proof -
  have eq: "set_cache c key v False now = c"
    using assms by (simp add: set_cache_noop)
  have "fst (get c key now') = (None, False, False)"
    if "\<forall>e. fmlookup (entries c) key = Some e \<longrightarrow> isExpired e now'"
    using that by (cases "fmlookup (entries c) key") (simp_all add: get_def)
  with eq show ?thesis by simp
qed

theorem negative_set_is_noop_witness:
  "NegativeTTL (config oneEntry) = 0
   \<and> set_cache oneEntry ''b'' None False 2 = oneEntry
   \<and> fst (get (set_cache oneEntry ''b'' None False 2) ''b'' 3) = (None, False, False)"
proof -
  have h: "NegativeTTL (config oneEntry) = 0" by code_simp
  have n: "\<forall>e. fmlookup (entries oneEntry) ''b'' = Some e \<longrightarrow> isExpired e 3"
    by (simp add: oneEntry_def NewCache_def cfgOf_def set_cache_def Let_def)
  show ?thesis
    using h n negative_set_is_noop [OF h, of "''b''" None 2 3] by blast
qed

text \<open>
  C6 as stated fails where the key already holds a live entry: the call changes
  nothing, and the following \<open>get\<close> is a hit on the old entry.
\<close>

theorem negative_set_then_get_counterexample:
  "NegativeTTL (config oneEntry) = 0
   \<and> fst (get (set_cache oneEntry ''a'' None False 2) ''a'' 3) = (Some 1, True, True)"
  by code_simp

subsection \<open>A size of 0 or less\<close>

lemma evict_nonpositive:
  "Size (config c) \<le> 0 \<Longrightarrow> fmdom' (entries c) \<subseteq> set xs \<Longrightarrow>
   fmdom' (entries (evict c xs)) = {} \<and> order (evict c xs) = []"
proof (induction xs arbitrary: c)
  case Nil
  then show ?case by simp
next
  case (Cons x xs)
  let ?c' = "c\<lparr> entries := fmdrop x (entries c) \<rparr>"
  have "Size (config ?c') \<le> 0" using Cons.prems(1) by simp
  moreover have "fmdom' (entries ?c') \<subseteq> set xs" using Cons.prems(2) by auto
  ultimately have "fmdom' (entries (evict ?c' xs)) = {} \<and> order (evict ?c' xs) = []"
    by (rule Cons.IH)
  moreover have "Size (config c) \<le> int (len_entries (entries c))"
    using Cons.prems(1) by simp
  ultimately show ?case by simp
qed

lemma set_cache_nonpositive:
  assumes inv: "cache_inv c" and np: "Size (config c) \<le> 0" and le: "Cache_Size c \<le> 1"
  shows "Cache_Size (set_cache c key v fnd now) \<le> 1"
proof (cases "fnd \<or> NegativeTTL (config c) \<noteq> 0")
  case False
  with le show ?thesis by (simp add: set_cache_noop)
next
  case guard: True
  show ?thesis
  proof (cases "key \<in> set (order c)")
    case True
    then have "key \<in> fmdom' (entries c)" using inv by (simp add: cache_inv_alt)
    then have "insert key (fmdom' (entries c)) = fmdom' (entries c)" by auto
    then show ?thesis
      using le by (simp add: set_cache_existing [OF inv guard True] Cache_Size_def len_entries_card)
  next
    case False
    then have none: "fmlookup (entries c) key = None"
      using inv by (simp add: lookup_None_order)
    have "fmdom' (entries c) \<subseteq> set (order c)" using inv by (simp add: cache_inv_alt)
    with np have "fmdom' (entries (evict c (order c))) = {}"
      using evict_nonpositive [of c "order c"] by simp
    with none guard show ?thesis
      by (auto simp: set_cache_def Let_def Cache_Size_def len_entries_card)
  qed
qed

lemma nonpositive_size_holds_one_entry:
  "Size (config c) \<le> 0 \<Longrightarrow> cache_inv c \<Longrightarrow> Cache_Size c \<le> 1 \<Longrightarrow>
   Cache_Size (set_all c calls) \<le> 1"
proof (induction calls arbitrary: c)
  case Nil
  then show ?case by simp
next
  case (Cons call calls)
  obtain key v fnd now where call: "call = (key, v, fnd, now)"
    by (cases call) auto
  let ?c' = "set_cache c key v fnd now"
  have "Size (config ?c') \<le> 0" using Cons.prems(1) by (simp add: set_cache_config)
  moreover have "cache_inv ?c'" using Cons.prems(2) by (rule set_cache_inv)
  moreover have "Cache_Size ?c' \<le> 1"
    using Cons.prems(2,1,3) by (rule set_cache_nonpositive)
  ultimately have "Cache_Size (set_all ?c' calls) \<le> 1" by (rule Cons.IH)
  then show ?case by (simp add: call)
qed

lemma NewCache_nonpositive_size:
  "Size cfg \<le> 0 \<Longrightarrow> Cache_Size (set_all (NewCache cfg) calls) \<le> 1"
  by (rule nonpositive_size_holds_one_entry)
     (simp_all add: NewCache_inv, simp_all add: NewCache_def Cache_Size_def len_entries_card)

text \<open>
  C1 says that a size of 0 or less gives a cache of capacity 1000. In the code
  \<open>NewCache\<close> puts 1000 in a local variable that only sizes the allocations, and
  \<open>set\<close> compares against the stored \<open>config.Size\<close>. With \<open>Size = 0\<close> the second
  \<open>set\<close> of a new key evicts the first key: one entry is resident, not two, and
  the first key is a miss. The same two calls on a cache of size 1000 keep both.
\<close>

theorem zero_size_holds_one_entry:
  "Cache_Size (set_all (NewCache (cfgOf 0 0 0)) twoCalls) = 1
   \<and> order (set_all (NewCache (cfgOf 0 0 0)) twoCalls) = [''b'']
   \<and> fst (get (set_all (NewCache (cfgOf 0 0 0)) twoCalls) ''a'' 3) = (None, False, False)
   \<and> Cache_Size (set_all (NewCache (cfgOf 1000 0 0)) twoCalls) = 2"
  by code_simp

subsection \<open>Updating a key that is already cached\<close>

lemma newEntry_live:
  "ttlFor cfg fnd \<le> 0 \<or> t \<le> now + ttlFor cfg fnd \<Longrightarrow> \<not> isExpired (newEntry cfg v fnd now) t"
  by (auto simp: isExpired_def newEntry_def IsZero_def)

lemma get_newEntry:
  assumes "fmlookup (entries c) key = Some (newEntry cfg v fnd now)"
    and "ttlFor cfg fnd \<le> 0 \<or> t \<le> now + ttlFor cfg fnd"
  shows "get c key t = ((v, fnd, True), c)"
proof -
  have "\<not> isExpired (newEntry cfg v fnd now) t"
    using assms(2) by (rule newEntry_live)
  with assms(1) show ?thesis by (simp add: get_def newEntry_def)
qed

lemma refresh_scenario:
  fixes cfg :: CacheConfig and v1 :: "'a option"
  assumes sz: "Size cfg = 3" and d: "distinct [k1, k2, k3, k4]"
    and g: "NegativeTTL cfg \<noteq> 0 \<or> (f1 \<and> f2 \<and> f3 \<and> f1' \<and> f4)"
    and final_def: "final = set_all (NewCache cfg)
       [(k1, v1, f1, t1), (k2, v2, f2, t2), (k3, v3, f3, t3), (k1, v1', f1', t4), (k4, v4, f4, t5)]"
  shows "order final = [k3, k1, k4]"
    and "fmlookup (entries final) k2 = None"
    and "fmlookup (entries final) k1 = Some (newEntry cfg v1' f1' t4)"
    and "fmlookup (entries final) k3 = Some (newEntry cfg v3 f3 t3)"
    and "fmlookup (entries final) k4 = Some (newEntry cfg v4 f4 t5)"
proof -
  define c0 where "c0 = (NewCache cfg :: 'a Cache)"
  define c1 where "c1 = set_cache c0 k1 v1 f1 t1"
  define c2 where "c2 = set_cache c1 k2 v2 f2 t2"
  define c3 where "c3 = set_cache c2 k3 v3 f3 t3"
  define c4 where "c4 = set_cache c3 k1 v1' f1' t4"
  define c5 where "c5 = set_cache c4 k4 v4 f4 t5"
  have fin: "final = c5"
    by (simp add: final_def c5_def c4_def c3_def c2_def c1_def c0_def)
  have i0: "cache_inv c0" unfolding c0_def by (rule NewCache_inv)
  have s0: "config c0 = cfg" "order c0 = []" "entries c0 = fmempty"
    by (simp_all add: c0_def NewCache_def)
  have e1: "c1 = c0\<lparr> entries := fmupd k1 (newEntry (config c0) v1 f1 t1) (entries c0),
                      order := order c0 @ [k1] \<rparr>"
    unfolding c1_def using i0 g s0 sz by (intro set_cache_new_room) auto
  have i1: "cache_inv c1" unfolding c1_def using i0 by (rule set_cache_inv)
  have s1: "config c1 = cfg" "order c1 = [k1]"
    "entries c1 = fmupd k1 (newEntry cfg v1 f1 t1) fmempty"
    by (simp_all add: e1 s0)
  have e2: "c2 = c1\<lparr> entries := fmupd k2 (newEntry (config c1) v2 f2 t2) (entries c1),
                      order := order c1 @ [k2] \<rparr>"
    unfolding c2_def using i1 g s1 sz d by (intro set_cache_new_room) auto
  have i2: "cache_inv c2" unfolding c2_def using i1 by (rule set_cache_inv)
  have s2: "config c2 = cfg" "order c2 = [k1, k2]"
    "entries c2 = fmupd k2 (newEntry cfg v2 f2 t2) (entries c1)"
    by (simp_all add: e2 s1)
  have e3: "c3 = c2\<lparr> entries := fmupd k3 (newEntry (config c2) v3 f3 t3) (entries c2),
                      order := order c2 @ [k3] \<rparr>"
    unfolding c3_def using i2 g s2 sz d by (intro set_cache_new_room) auto
  have i3: "cache_inv c3" unfolding c3_def using i2 by (rule set_cache_inv)
  have s3: "config c3 = cfg" "order c3 = [k1, k2, k3]"
    "entries c3 = fmupd k3 (newEntry cfg v3 f3 t3) (entries c2)"
    by (simp_all add: e3 s2)
  have e4: "c4 = c3\<lparr> entries := fmupd k1 (newEntry (config c3) v1' f1' t4) (entries c3),
                      order := remove1 k1 (order c3) @ [k1] \<rparr>"
    unfolding c4_def using i3 g s3 by (intro set_cache_existing) auto
  have i4: "cache_inv c4" unfolding c4_def using i3 by (rule set_cache_inv)
  have s4: "config c4 = cfg" "order c4 = [k2, k3, k1]"
    "entries c4 = fmupd k1 (newEntry cfg v1' f1' t4) (entries c3)"
    using d by (simp_all add: e4 s3)
  have e5: "c5 = c4\<lparr> entries := fmupd k4 (newEntry (config c4) v4 f4 t5) (fmdrop k2 (entries c4)),
                      order := [k3, k1] @ [k4] \<rparr>"
    unfolding c5_def using i4 g s4 sz d by (intro set_cache_new_full) auto
  have s5: "order c5 = [k3, k1, k4]"
    "entries c5 = fmupd k4 (newEntry cfg v4 f4 t5) (fmdrop k2 (entries c4))"
    by (simp_all add: e5 s4)
  show "order final = [k3, k1, k4]" by (simp add: fin s5)
  show "fmlookup (entries final) k2 = None"
    using d by (auto simp: fin s5)
  show "fmlookup (entries final) k1 = Some (newEntry cfg v1' f1' t4)"
    using d by (auto simp: fin s5 s4)
  show "fmlookup (entries final) k3 = Some (newEntry cfg v3 f3 t3)"
    using d by (auto simp: fin s5 s4 s3)
  show "fmlookup (entries final) k4 = Some (newEntry cfg v4 f4 t5)"
    by (simp add: fin s5)
qed


text \<open>
  C5, as the code has it. In a cache that already holds the key, a \<open>set\<close> call
  that is not the no-op for a negative result (\<open>found\<close> is true, or
  \<open>negativeTTL\<close> is not 0) writes the new entry over the old one, touches no
  other key and does not change the number of entries, and moves the key to the
  most-recently-used end of the order, the other keys keeping their places.
  Consequently, with capacity 3 and five such calls for \<open>k1\<close>, \<open>k2\<close>, \<open>k3\<close>,
  \<open>k1\<close> again and \<open>k4\<close> (four different keys), the order ends as \<open>k3, k1, k4\<close>:
  \<open>k2\<close> is evicted and is a miss, while \<open>k1\<close> (with the value of its second
  call), \<open>k3\<close> and \<open>k4\<close> are hits for as long as their entries have not expired.
\<close>

theorem set_existing_key_refreshes_recency:
  "(cache_inv c \<and> fmlookup (entries c) key \<noteq> None \<and> (fnd \<or> NegativeTTL (config c) \<noteq> 0) \<longrightarrow>
       fmlookup (entries (set_cache c key v fnd now)) key = Some (newEntry (config c) v fnd now)
     \<and> (\<forall>k. k \<noteq> key \<longrightarrow>
            fmlookup (entries (set_cache c key v fnd now)) k = fmlookup (entries c) k)
     \<and> Cache_Size (set_cache c key v fnd now) = Cache_Size c
     \<and> order (set_cache c key v fnd now) = remove1 key (order c) @ [key])
   \<and> (Size cfg = 3 \<and> distinct [k1, k2, k3, k4]
        \<and> (NegativeTTL cfg \<noteq> 0 \<or> (f1 \<and> f2 \<and> f3 \<and> f1' \<and> f4)) \<longrightarrow>
       order (set_all (NewCache cfg)
             [(k1, v1, f1, t1), (k2, v2, f2, t2), (k3, v3, f3, t3), (k1, v1', f1', t4), (k4, v4, f4, t5)]) = [k3, k1, k4]
     \<and> fst (get (set_all (NewCache cfg)
             [(k1, v1, f1, t1), (k2, v2, f2, t2), (k3, v3, f3, t3), (k1, v1', f1', t4), (k4, v4, f4, t5)]) k2 t) = (None, False, False)
     \<and> (ttlFor cfg f1' \<le> 0 \<or> t \<le> t4 + ttlFor cfg f1' \<longrightarrow>
          fst (get (set_all (NewCache cfg)
             [(k1, v1, f1, t1), (k2, v2, f2, t2), (k3, v3, f3, t3), (k1, v1', f1', t4), (k4, v4, f4, t5)]) k1 t) = (v1', f1', True))
     \<and> (ttlFor cfg f3 \<le> 0 \<or> t \<le> t3 + ttlFor cfg f3 \<longrightarrow>
          fst (get (set_all (NewCache cfg)
             [(k1, v1, f1, t1), (k2, v2, f2, t2), (k3, v3, f3, t3), (k1, v1', f1', t4), (k4, v4, f4, t5)]) k3 t) = (v3, f3, True))
     \<and> (ttlFor cfg f4 \<le> 0 \<or> t \<le> t5 + ttlFor cfg f4 \<longrightarrow>
          fst (get (set_all (NewCache cfg)
             [(k1, v1, f1, t1), (k2, v2, f2, t2), (k3, v3, f3, t3), (k1, v1', f1', t4), (k4, v4, f4, t5)]) k4 t) = (v4, f4, True)))"
proof (intro conjI impI allI)
  assume a: "cache_inv c \<and> fmlookup (entries c) key \<noteq> None \<and> (fnd \<or> NegativeTTL (config c) \<noteq> 0)"
  then have inv: "cache_inv c" and guard: "fnd \<or> NegativeTTL (config c) \<noteq> 0" by simp_all
  from a have "\<not> fmlookup (entries c) key = None" by simp
  then have mem: "key \<in> set (order c)"
    using inv by (simp add: lookup_None_order)
  note eq = set_cache_existing [OF inv guard mem, of v now]
  show "fmlookup (entries (set_cache c key v fnd now)) key = Some (newEntry (config c) v fnd now)"
    by (simp add: eq)
  show "order (set_cache c key v fnd now) = remove1 key (order c) @ [key]"
    by (simp add: eq)
  have "key \<in> fmdom' (entries c)" using inv mem by (simp add: cache_inv_alt)
  then have "insert key (fmdom' (entries c)) = fmdom' (entries c)" by auto
  then show "Cache_Size (set_cache c key v fnd now) = Cache_Size c"
    by (simp add: eq Cache_Size_def len_entries_card)
  fix k
  assume "k \<noteq> key"
  then show "fmlookup (entries (set_cache c key v fnd now)) k = fmlookup (entries c) k"
    by (simp add: eq)
next
  assume b: "Size cfg = 3 \<and> distinct [k1, k2, k3, k4]
        \<and> (NegativeTTL cfg \<noteq> 0 \<or> (f1 \<and> f2 \<and> f3 \<and> f1' \<and> f4))"
  define final where "final = (set_all (NewCache cfg)
             [(k1, v1, f1, t1), (k2, v2, f2, t2), (k3, v3, f3, t3), (k1, v1', f1', t4), (k4, v4, f4, t5)])"
  have sz: "Size cfg = 3" and d: "distinct [k1, k2, k3, k4]"
    and g: "NegativeTTL cfg \<noteq> 0 \<or> (f1 \<and> f2 \<and> f3 \<and> f1' \<and> f4)"
    using b by blast+
  note r = refresh_scenario [OF sz d g final_def]
  show "order (set_all (NewCache cfg)
             [(k1, v1, f1, t1), (k2, v2, f2, t2), (k3, v3, f3, t3), (k1, v1', f1', t4), (k4, v4, f4, t5)]) = [k3, k1, k4]"
    using r(1) by (simp add: final_def)
  have "fst (get final k2 t) = (None, False, False)"
    using r(2) by (simp add: get_absent)
  then show "fst (get (set_all (NewCache cfg)
             [(k1, v1, f1, t1), (k2, v2, f2, t2), (k3, v3, f3, t3), (k1, v1', f1', t4), (k4, v4, f4, t5)]) k2 t) = (None, False, False)"
    by (simp add: final_def)
  {
    assume "ttlFor cfg f1' \<le> 0 \<or> t \<le> t4 + ttlFor cfg f1'"
    then have "fst (get final k1 t) = (v1', f1', True)"
      using r(3) by (simp add: get_newEntry)
    then show "fst (get (set_all (NewCache cfg)
             [(k1, v1, f1, t1), (k2, v2, f2, t2), (k3, v3, f3, t3), (k1, v1', f1', t4), (k4, v4, f4, t5)]) k1 t) = (v1', f1', True)"
      by (simp add: final_def)
  }
  {
    assume "ttlFor cfg f3 \<le> 0 \<or> t \<le> t3 + ttlFor cfg f3"
    then have "fst (get final k3 t) = (v3, f3, True)"
      using r(4) by (simp add: get_newEntry)
    then show "fst (get (set_all (NewCache cfg)
             [(k1, v1, f1, t1), (k2, v2, f2, t2), (k3, v3, f3, t3), (k1, v1', f1', t4), (k4, v4, f4, t5)]) k3 t) = (v3, f3, True)"
      by (simp add: final_def)
  }
  {
    assume "ttlFor cfg f4 \<le> 0 \<or> t \<le> t5 + ttlFor cfg f4"
    then have "fst (get final k4 t) = (v4, f4, True)"
      using r(5) by (simp add: get_newEntry)
    then show "fst (get (set_all (NewCache cfg)
             [(k1, v1, f1, t1), (k2, v2, f2, t2), (k3, v3, f3, t3), (k1, v1', f1', t4), (k4, v4, f4, t5)]) k4 t) = (v4, f4, True)"
      by (simp add: final_def)
  }
qed

theorem set_existing_key_refreshes_recency_witness:
  "order (set_cache twoEntries ''a'' (Some 9) True 5) = remove1 ''a'' (order twoEntries) @ [''a'']
   \<and> fmlookup (entries (set_cache twoEntries ''a'' (Some 9) True 5)) ''a''
        = Some (newEntry (config twoEntries) (Some 9) True 5)
   \<and> order (set_all (NewCache (cfgOf 3 0 0))
             [(''k1'', Some (1::nat), True, 1), (''k2'', Some 2, True, 2), (''k3'', Some 3, True, 3),
              (''k1'', Some 11, True, 4), (''k4'', Some 4, True, 5)]) = [''k3'', ''k1'', ''k4'']
   \<and> fst (get (set_all (NewCache (cfgOf 3 0 0))
             [(''k1'', Some (1::nat), True, 1), (''k2'', Some 2, True, 2), (''k3'', Some 3, True, 3),
              (''k1'', Some 11, True, 4), (''k4'', Some 4, True, 5)]) ''k2'' 9) = (None, False, False)
   \<and> fst (get (set_all (NewCache (cfgOf 3 0 0))
             [(''k1'', Some (1::nat), True, 1), (''k2'', Some 2, True, 2), (''k3'', Some 3, True, 3),
              (''k1'', Some 11, True, 4), (''k4'', Some 4, True, 5)]) ''k1'' 9) = (Some 11, True, True)
   \<and> fst (get (set_all (NewCache (cfgOf 3 0 0))
             [(''k1'', Some (1::nat), True, 1), (''k2'', Some 2, True, 2), (''k3'', Some 3, True, 3),
              (''k1'', Some 11, True, 4), (''k4'', Some 4, True, 5)]) ''k3'' 9) = (Some 3, True, True)
   \<and> fst (get (set_all (NewCache (cfgOf 3 0 0))
             [(''k1'', Some (1::nat), True, 1), (''k2'', Some 2, True, 2), (''k3'', Some 3, True, 3),
              (''k1'', Some 11, True, 4), (''k4'', Some 4, True, 5)]) ''k4'' 9) = (Some 4, True, True)"
proof -
  have h1: "cache_inv twoEntries \<and> fmlookup (entries twoEntries) ''a'' \<noteq> None
      \<and> (True \<or> NegativeTTL (config twoEntries) \<noteq> 0)"
    by code_simp
  have h2: "Size (cfgOf 3 0 0) = 3 \<and> distinct [''k1'', ''k2'', ''k3'', ''k4'']
      \<and> (NegativeTTL (cfgOf 3 0 0) \<noteq> 0 \<or> (True \<and> True \<and> True \<and> True \<and> True))"
    by (simp add: cfgOf_def)
  have h3: "ttlFor (cfgOf 3 0 0) True \<le> 0" by (simp add: cfgOf_def ttlFor_def)
  show ?thesis
    using h1 h2 h3
      set_existing_key_refreshes_recency [where c = twoEntries and key = "''a''" and fnd = True
        and v = "Some 9" and now = 5 and cfg = "cfgOf 3 0 0"
        and ?k1.0 = "''k1''" and ?k2.0 = "''k2''" and ?k3.0 = "''k3''" and ?k4.0 = "''k4''"
        and ?f1.0 = True and ?f2.0 = True and ?f3.0 = True and f1' = True and ?f4.0 = True
        and ?v1.0 = "Some 1" and ?v2.0 = "Some 2" and ?v3.0 = "Some 3" and v1' = "Some 11"
        and ?v4.0 = "Some 4" and ?t1.0 = 1 and ?t2.0 = 2 and ?t3.0 = 3 and ?t4.0 = 4 and ?t5.0 = 5
        and t = 9]
    by blast
qed

text \<open>
  C5 as stated fails for a negative result while \<open>negativeTTL\<close> is 0: the call
  returns before it reaches the map, so the entry of the key keeps its old value
  and the key keeps its place in the order.
\<close>

theorem set_existing_key_counterexample:
  "fmlookup (entries twoEntries) ''a'' = Some \<lparr> val = Some 1, found = True, expiresAt = 0 \<rparr>
   \<and> fmlookup (entries (set_cache twoEntries ''a'' (Some 9) False 5)) ''a''
        = Some \<lparr> val = Some 1, found = True, expiresAt = 0 \<rparr>
   \<and> order (set_cache twoEntries ''a'' (Some 9) False 5) = [''a'', ''b'']"
  by code_simp

subsection \<open>The decorated lookup\<close>

lemma WrapWithCache_enabled:
  "Enabled (config c) \<Longrightarrow>
   WrapWithCache (Some c) fn ctx key t1 t2 w =
     (case cachedLookup c fn ctx key t1 t2 w of (r, c', w') \<Rightarrow> (r, Some c', w'))"
  by (simp add: WrapWithCache_def)

lemma get_miss_cases:
  assumes "\<not> snd (snd (fst (get c key now)))"
  shows "get c key now = ((None, False, False), snd (get c key now))"
    and "fmlookup (entries (snd (get c key now))) key = None"
    and "k \<noteq> key \<Longrightarrow> fmlookup (entries (snd (get c key now))) k = fmlookup (entries c) k"
    and "config (snd (get c key now)) = config c"
  using assms
  by (auto simp: get_def removeEntryLocked_eq split: option.splits if_splits)

lemma cachedLookup_hit:
  "get c key t1 = ((v, f, True), c1) \<Longrightarrow> cachedLookup c fn ctx key t1 t2 w = ((v, f, None), c1, w)"
  by (simp add: cachedLookup_def)

lemma cachedLookup_error:
  assumes "\<not> snd (snd (fst (get c key t1)))" and "fn ctx key w = ((v, f, Some e), w')"
  shows "cachedLookup c fn ctx key t1 t2 w = ((None, False, Some e), snd (get c key t1), w')"
proof -
  obtain c1 where g: "get c key t1 = ((None, False, False), c1)"
    using get_miss_cases(1) [OF assms(1)] by blast
  then have "snd (get c key t1) = c1" by simp
  then show ?thesis
    using assms(2) by (simp add: cachedLookup_def g)
qed

lemma cachedLookup_ok:
  assumes "\<not> snd (snd (fst (get c key t1)))" and "fn ctx key w = ((v, f, None), w')"
  shows "cachedLookup c fn ctx key t1 t2 w =
           ((v, f, None), set_cache (snd (get c key t1)) key v f t2, w')"
proof -
  obtain c1 where g: "get c key t1 = ((None, False, False), c1)"
    using get_miss_cases(1) [OF assms(1)] by blast
  then have "snd (get c key t1) = c1" by simp
  then show ?thesis
    using assms(2) by (simp add: cachedLookup_def g)
qed

lemma set_cache_lookup:
  "fnd \<or> NegativeTTL (config c) \<noteq> 0 \<Longrightarrow>
   fmlookup (entries (set_cache c key v fnd now)) key = Some (newEntry (config c) v fnd now)"
  by (auto simp: set_cache_def moveToEndLocked_eq Let_def)

lemma counted_eq:
  "fn ctx key w = (r, w') \<Longrightarrow> counted fn ctx key (n, w) = (r, (Suc n, w'))"
  by (simp add: counted_def)

lemma WrapWithCache_result:
  "Enabled (config c) \<Longrightarrow>
   fst (WrapWithCache (Some c) fn ctx key t1 t2 w) = fst (cachedLookup c fn ctx key t1 t2 w)"
  by (simp add: WrapWithCache_def split: prod.splits)

lemma WrapWithCache_nil:
  "fst (WrapWithCache None fn ctx key t1 t2 w) = fst (fn ctx key w)"
  by (simp add: WrapWithCache_def split: prod.splits)

lemma WrapWithCache_disabled:
  "\<not> Enabled (config c) \<Longrightarrow>
   fst (WrapWithCache (Some c) fn ctx key t1 t2 w) = fst (fn ctx key w)"
  by (simp add: WrapWithCache_def split: prod.splits)

text \<open>
  C9, as the code has it. For a cache that is not \<open>nil\<close> and is enabled, whenever
  the wrapped lookup function is called (the cache has missed) and returns
  \<open>(v, f, e)\<close> with an error \<open>e\<close> that is not \<open>nil\<close>, the function that
  \<open>WrapWithCache\<close> returns gives \<open>(nil, false, e)\<close>, whatever \<open>v\<close> and \<open>f\<close>
  were. For a \<open>nil\<close> cache and for a disabled one \<open>WrapWithCache\<close> returns the
  wrapped function itself, so the result is the wrapped function's own, with
  its value and flag.
\<close>

theorem error_discards_value_and_flag:
  "(Enabled (config c) \<and> \<not> snd (snd (fst (get c key t1)))
      \<and> fn ctx key w = ((v, f, Some e), w') \<longrightarrow>
        fst (WrapWithCache (Some c) fn ctx key t1 t2 w) = (None, False, Some e))
   \<and> fst (WrapWithCache None fn ctx key t1 t2 w) = fst (fn ctx key w)
   \<and> (\<not> Enabled (config c) \<longrightarrow>
        fst (WrapWithCache (Some c) fn ctx key t1 t2 w) = fst (fn ctx key w))"
proof (intro conjI impI)
  assume a: "Enabled (config c) \<and> \<not> snd (snd (fst (get c key t1)))
      \<and> fn ctx key w = ((v, f, Some e), w')"
  then have en: "Enabled (config c)" and miss: "\<not> snd (snd (fst (get c key t1)))"
    and err: "fn ctx key w = ((v, f, Some e), w')"
    by simp_all
  have "cachedLookup c fn ctx key t1 t2 w = ((None, False, Some e), snd (get c key t1), w')"
    using miss err by (rule cachedLookup_error)
  then show "fst (WrapWithCache (Some c) fn ctx key t1 t2 w) = (None, False, Some e)"
    using en by (simp add: WrapWithCache_result)
next
  show "fst (WrapWithCache None fn ctx key t1 t2 w) = fst (fn ctx key w)"
    by (rule WrapWithCache_nil)
next
  assume "\<not> Enabled (config c)"
  then show "fst (WrapWithCache (Some c) fn ctx key t1 t2 w) = fst (fn ctx key w)"
    by (rule WrapWithCache_disabled)
qed

theorem error_discards_value_and_flag_witness:
  "failingLookup () ''k'' () = ((Some 7, True, Some ''lookup failed''), ())
   \<and> fst (WrapWithCache (Some oneEntry) failingLookup () ''k'' 3 4 ())
        = (None, False, Some ''lookup failed'')
   \<and> fst (WrapWithCache (Some disabledCache) failingLookup () ''k'' 3 4 ())
        = fst (failingLookup () ''k'' ())"
proof -
  have en: "Enabled (config oneEntry)" by code_simp
  have m: "\<not> snd (snd (fst (get oneEntry ''k'' 3)))" by code_simp
  have f: "failingLookup () ''k'' () = ((Some 7, True, Some ''lookup failed''), ())"
    by (simp add: failingLookup_def)
  have dis: "\<not> Enabled (config disabledCache)" by code_simp
  have "fst (WrapWithCache (Some oneEntry) failingLookup () ''k'' 3 4 ())
        = (None, False, Some ''lookup failed'')"
    using en m f
      error_discards_value_and_flag [where c = oneEntry and fn = failingLookup and ctx = "()"
        and key = "''k''" and w = "()" and w' = "()" and v = "Some 7" and f = True
        and e = "''lookup failed''" and ?t1.0 = 3 and ?t2.0 = 4]
    by blast
  moreover have "fst (WrapWithCache (Some disabledCache) failingLookup () ''k'' 3 4 ())
        = fst (failingLookup () ''k'' ())"
    using dis
      error_discards_value_and_flag [where c = disabledCache and fn = failingLookup and ctx = "()"
        and key = "''k''" and w = "()" and ?t1.0 = 3 and ?t2.0 = 4]
    by blast
  ultimately show ?thesis using f by simp
qed

text \<open>
  C9 as stated fails for a \<open>nil\<close> cache and for a disabled one: what
  \<open>WrapWithCache\<close> returns is the wrapped function, and the value and the true
  flag it returns beside its error come through unchanged.
\<close>

theorem error_discards_counterexample:
  "failingLookup () ''k'' () = ((Some 7, True, Some ''lookup failed''), ())
   \<and> fst (WrapWithCache None failingLookup () ''k'' 3 4 ())
        = (Some 7, True, Some ''lookup failed'')
   \<and> \<not> Enabled (config disabledCache)
   \<and> fst (WrapWithCache (Some disabledCache) failingLookup () ''k'' 3 4 ())
        = (Some 7, True, Some ''lookup failed'')"
  by code_simp

lemma WrapWithCache_world:
  "Enabled (config c) \<Longrightarrow>
   snd (snd (WrapWithCache (Some c) fn ctx key t1 t2 w)) = snd (snd (cachedLookup c fn ctx key t1 t2 w))"
  by (simp add: WrapWithCache_def split: prod.splits)

text \<open>
  C7, as the code has it. Take an enabled cache, a key that the first call misses,
  and a wrapped function whose call succeeds with a result that \<open>set\<close> stores
  (\<open>found\<close> is true, or \<open>negativeTTL\<close> is not 0). If the stored entry has not
  expired when the second call reads the clock (its TTL is not positive, or
  \<open>t3\<close> is no later than \<open>t2\<close> plus the TTL), then over the two calls the wrapped
  function runs exactly once: the counter goes from \<open>n\<close> to \<open>n + 1\<close>, the second
  call leaves the world as the first left it, and both calls return the same
  \<open>(value, found, nil)\<close>.
\<close>

theorem second_call_served_from_cache:
  assumes en: "Enabled (config c)"
    and miss: "\<not> snd (snd (fst (get c key t1)))"
    and ok: "fn ctx key w = ((v, fnd, None), w')"
    and cacheable: "fnd \<or> NegativeTTL (config c) \<noteq> 0"
    and live: "ttlFor (config c) fnd \<le> 0 \<or> t3 \<le> t2 + ttlFor (config c) fnd"
  shows "callTwice (Some c) (counted fn) ctx key t1 t2 t3 t4 (n, w) =
           ((v, fnd, None), (v, fnd, None),
            Some (set_cache (snd (get c key t1)) key v fnd t2), (Suc n, w'))"
proof -
  let ?c1 = "snd (get c key t1)"
  let ?c2 = "set_cache ?c1 key v fnd t2"
  have cfg1: "config ?c1 = config c" using miss by (rule get_miss_cases)
  have cnt: "counted fn ctx key (n, w) = ((v, fnd, None), (Suc n, w'))"
    using ok by (rule counted_eq)
  have "cachedLookup c (counted fn) ctx key t1 t2 (n, w) = ((v, fnd, None), ?c2, (Suc n, w'))"
    using miss cnt by (rule cachedLookup_ok)
  then have first: "WrapWithCache (Some c) (counted fn) ctx key t1 t2 (n, w) =
      ((v, fnd, None), Some ?c2, (Suc n, w'))"
    using en by (simp add: WrapWithCache_enabled)
  have en2: "Enabled (config ?c2)" using en by (simp add: set_cache_config cfg1)
  have "fmlookup (entries ?c2) key = Some (newEntry (config c) v fnd t2)"
    using cacheable set_cache_lookup [of fnd ?c1 key v t2] by (simp add: cfg1)
  then have "get ?c2 key t3 = ((v, fnd, True), ?c2)"
    using live by (rule get_newEntry)
  then have "cachedLookup ?c2 (counted fn) ctx key t3 t4 (Suc n, w') =
      ((v, fnd, None), ?c2, (Suc n, w'))"
    by (rule cachedLookup_hit)
  then have second: "WrapWithCache (Some ?c2) (counted fn) ctx key t3 t4 (Suc n, w') =
      ((v, fnd, None), Some ?c2, (Suc n, w'))"
    using en2 by (simp add: WrapWithCache_enabled)
  show ?thesis
    by (simp add: callTwice_def first second)
qed

theorem second_call_served_from_cache_witness:
  "fst (callTwice (Some oneEntry) (counted valueLookup) () ''key'' 2 3 4 5 (0, ())) = (Some 3, True, None)
   \<and> fst (snd (callTwice (Some oneEntry) (counted valueLookup) () ''key'' 2 3 4 5 (0, ())))
        = (Some 3, True, None)
   \<and> snd (snd (snd (callTwice (Some oneEntry) (counted valueLookup) () ''key'' 2 3 4 5 (0, ()))))
        = (1, ())"
proof -
  have en: "Enabled (config oneEntry)" by code_simp
  have miss: "\<not> snd (snd (fst (get oneEntry ''key'' 2)))" by code_simp
  have ok: "valueLookup () ''key'' () = ((Some 3, True, None), ())"
    by (simp add: valueLookup_def)
  have cacheable: "True \<or> NegativeTTL (config oneEntry) \<noteq> 0" by simp
  have live: "ttlFor (config oneEntry) True \<le> 0 \<or> 4 \<le> 3 + ttlFor (config oneEntry) True"
    by code_simp
  show ?thesis
    using second_call_served_from_cache [where c = oneEntry and fn = valueLookup and ctx = "()"
        and key = "''key''" and w = "()" and w' = "()" and v = "Some 3" and fnd = True
        and ?t1.0 = 2 and ?t2.0 = 3 and ?t3.0 = 4 and ?t4.0 = 5 and n = 0, OF en miss ok cacheable live]
    by simp
qed

text \<open>
  C7 as stated fails for a wrapped function that returns an error, and for one
  that returns a negative result while \<open>negativeTTL\<close> is 0: nothing is stored, so
  the second call runs the wrapped function again and the counter reaches 2. No
  entry expires in between: the cache is empty throughout.
\<close>

theorem second_call_counterexample:
  "Enabled (config (NewCache (cfgOf 100 0 0)))
   \<and> snd (snd (snd (callTwice (Some (NewCache (cfgOf 100 0 0))) (counted failingLookup)
        () ''k'' 1 2 3 4 (0, ())))) = (2, ())
   \<and> snd (snd (snd (callTwice (Some (NewCache (cfgOf 100 0 0))) (counted notFoundLookup)
        () ''k'' 1 2 3 4 (0, ())))) = (2, ())"
  by code_simp

text \<open>
  C8, as the code has it. In an enabled cache, when the call misses and the wrapped
  function returns an error that is not \<open>nil\<close>, the decorated function returns
  that error with \<open>(nil, false)\<close> and never reaches \<open>set\<close>: the cache is the one
  the missed \<open>get\<close> left. That cache holds no entry for the key and has every
  other key as before; it is the cache before the call when the key was absent,
  and the cache without the expired entry when the miss came from an expiry.
  The next call with the same key, at any time, runs the wrapped function again.
\<close>

theorem error_is_not_cached:
  assumes en: "Enabled (config c)"
    and miss: "\<not> snd (snd (fst (get c key t1)))"
    and err: "fn ctx key w = ((v, fnd, Some e), w')"
  shows "WrapWithCache (Some c) fn ctx key t1 t2 w =
           ((None, False, Some e), Some (snd (get c key t1)), w')
       \<and> fmlookup (entries (snd (get c key t1))) key = None
       \<and> (\<forall>k. k \<noteq> key \<longrightarrow> fmlookup (entries (snd (get c key t1))) k = fmlookup (entries c) k)
       \<and> (fmlookup (entries c) key = None \<longrightarrow> snd (get c key t1) = c)
       \<and> snd (snd (WrapWithCache (Some (snd (get c key t1))) (counted fn) ctx key t3 t4 (n, w1)))
           = (Suc n, snd (fn ctx key w1))"
proof (intro conjI allI impI)
  let ?c1 = "snd (get c key t1)"
  have "cachedLookup c fn ctx key t1 t2 w = ((None, False, Some e), ?c1, w')"
    using miss err by (rule cachedLookup_error)
  then show "WrapWithCache (Some c) fn ctx key t1 t2 w = ((None, False, Some e), Some ?c1, w')"
    using en by (simp add: WrapWithCache_enabled)
  show none: "fmlookup (entries ?c1) key = None"
    using miss by (rule get_miss_cases)
  show "fmlookup (entries c) key = None \<Longrightarrow> ?c1 = c"
    by (simp add: get_absent)
  have en1: "Enabled (config ?c1)"
    using en get_miss_cases(4) [OF miss] by simp
  have g: "get ?c1 key t3 = ((None, False, False), ?c1)"
    using none by (rule get_absent)
  obtain r w2 where f: "fn ctx key w1 = (r, w2)" by (cases "fn ctx key w1")
  obtain v2 f2 e2 where r: "r = (v2, f2, e2)" by (cases r)
  have "counted fn ctx key (n, w1) = ((v2, f2, e2), (Suc n, w2))"
    using f r by (simp add: counted_eq)
  then have "snd (snd (cachedLookup ?c1 (counted fn) ctx key t3 t4 (n, w1))) = (Suc n, w2)"
    by (simp add: cachedLookup_def g)
  then show "snd (snd (WrapWithCache (Some ?c1) (counted fn) ctx key t3 t4 (n, w1)))
           = (Suc n, snd (fn ctx key w1))"
    using en1 f by (simp add: WrapWithCache_world)
next
  fix k
  assume "k \<noteq> key"
  then show "fmlookup (entries (snd (get c key t1))) k = fmlookup (entries c) k"
    using miss by (intro get_miss_cases)
qed

theorem error_is_not_cached_witness:
  "WrapWithCache (Some oneEntry) failingLookup () ''k'' 3 4 ()
      = ((None, False, Some ''lookup failed''), Some oneEntry, ())
   \<and> snd (snd (WrapWithCache (Some oneEntry) (counted failingLookup) () ''k'' 5 6 (0, ())))
      = (1, ())"
proof -
  have en: "Enabled (config oneEntry)" by code_simp
  have miss: "\<not> snd (snd (fst (get oneEntry ''k'' 3)))" by code_simp
  have err: "failingLookup () ''k'' () = ((Some 7, True, Some ''lookup failed''), ())"
    by (simp add: failingLookup_def)
  have none: "fmlookup (entries oneEntry) ''k'' = None" by code_simp
  note t = error_is_not_cached [where c = oneEntry and fn = failingLookup and ctx = "()"
        and key = "''k''" and w = "()" and w' = "()" and v = "Some 7" and fnd = True
        and e = "''lookup failed''" and ?t1.0 = 3 and ?t2.0 = 4 and ?t3.0 = 5 and ?t4.0 = 6
        and n = 0 and ?w1.0 = "()", OF en miss err]
  have same: "snd (get oneEntry ''k'' 3) = oneEntry"
    using t none by blast
  have "WrapWithCache (Some oneEntry) failingLookup () ''k'' 3 4 ()
      = ((None, False, Some ''lookup failed''), Some (snd (get oneEntry ''k'' 3)), ())"
    using t by blast
  moreover have "snd (snd (WrapWithCache (Some (snd (get oneEntry ''k'' 3)))
      (counted failingLookup) () ''k'' 5 6 (0, ()))) = (Suc 0, ())"
    using t by simp
  ultimately show ?thesis
    by (simp add: same)
qed

text \<open>
  C8 as stated fails where the miss comes from an expired entry: the wrapped
  function fails, and the cache is not the one before the call, since \<open>get\<close> has
  removed the expired entry from the map and from the order.
\<close>

theorem error_is_not_cached_counterexample:
  "Enabled (config oneEntry)
   \<and> order oneEntry = [''a''] \<and> Cache_Size oneEntry = 1
   \<and> fst (WrapWithCache (Some oneEntry) failingLookup () ''a'' 10 11 ())
        = (None, False, Some ''lookup failed'')
   \<and> map_option order (fst (snd (WrapWithCache (Some oneEntry) failingLookup () ''a'' 10 11 ())))
        = Some []
   \<and> map_option Cache_Size (fst (snd (WrapWithCache (Some oneEntry) failingLookup () ''a'' 10 11 ())))
        = Some 0"
  by code_simp

end
